theory Spec2Isabelle
  imports Main "HOL-Library.Word"
begin

unbundle bit_operations_syntax

section \<open>The CFF DICT decoder of tachyfont (\<^verbatim>\<open>tachyfont.CffDict\<close>)\<close>

text \<open>
  A shallow embedding of \<^verbatim>\<open>tachyfont.CffDict\<close>. Naming: Closure's private marker, the
  trailing underscore of \<^verbatim>\<open>init_\<close>, \<^verbatim>\<open>keys_\<close>, \<^verbatim>\<open>dict_\<close> ..., is written as a prime
  (\<open>init'\<close>, \<open>keys'\<close>, \<open>dict'\<close>), since a HOL name cannot end in an underscore. A
  \<^verbatim>\<open>while\<close> loop of function \<open>f\<close> is the recursive function \<open>f_while\<close>, a \<^verbatim>\<open>for\<close>
  loop is \<open>f_for\<close>. Exceptions are values: every function that can throw returns
  \<open>error + result\<close>, with \<open>Inl\<close> the exception. The byte cursor is mutated by the
  source; here every reader returns the advanced cursor with its result.
\<close>

subsection \<open>JavaScript values and operators\<close>

text \<open>
  The exceptions of the decoder: \<^verbatim>\<open>Error(numberToHex(b0, 2) + 'is reserved operand value')\<close>
  with the offending byte; the \<^verbatim>\<open>RangeError\<close> of a \<^verbatim>\<open>DataView\<close> read or construction
  out of range; the \<^verbatim>\<open>RangeError\<close> of \<^verbatim>\<open>get\<close> with its message; and the \<^verbatim>\<open>TypeError\<close>
  of calling a method of \<^verbatim>\<open>undefined\<close>.
\<close>

datatype error =
    ReservedOperandByte int
  | OutOfRange
  | InvalidKeyLookup string
  | TypeError

text \<open>An operand is a number (always an integer here) or the string of a real.\<close>

datatype operand = Integer int | RealLiteral string

text \<open>
  The bitwise operators of JavaScript work on 32-bit two's complement integers:
  both sides go through \<^verbatim>\<open>ToInt32\<close>, the shift count is taken modulo 32, and the result
  is read back as a signed 32-bit value.
\<close>

definition ToInt32 :: "int \<Rightarrow> 32 word" where
  "ToInt32 x = word_of_int x"

definition js_shl :: "int \<Rightarrow> nat \<Rightarrow> int" where
  "js_shl x n = sint (push_bit (n mod 32) (ToInt32 x))"

definition js_sar :: "int \<Rightarrow> nat \<Rightarrow> int" where
  "js_sar x n = sint (signed_drop_bit (n mod 32) (ToInt32 x))"

definition js_or :: "int \<Rightarrow> int \<Rightarrow> int" where
  "js_or x y = sint (ToInt32 x OR ToInt32 y)"

definition js_and :: "int \<Rightarrow> int \<Rightarrow> int" where
  "js_and x y = sint (ToInt32 x AND ToInt32 y)"

text \<open>\<^verbatim>\<open>Number.prototype.toString\<close> on an integer: decimal digits, a minus sign first.\<close>

fun digits :: "nat \<Rightarrow> string" where
  "digits n =
     (if n < 10 then [''0123456789'' ! n]
      else digits (n div 10) @ [''0123456789'' ! (n mod 10)])"

definition toString :: "int \<Rightarrow> string" where
  "toString i = (if i < 0 then ''-'' @ digits (nat (- i)) else digits (nat i))"

text \<open>
  \<^verbatim>\<open>Array.prototype.toString\<close>, which string concatenation applies to the operand
  array: the elements' strings joined by commas.
\<close>

fun operandToString :: "operand \<Rightarrow> string" where
  "operandToString (Integer i) = toString i"
| "operandToString (RealLiteral s) = s"

fun arrayToString :: "operand list \<Rightarrow> string" where
  "arrayToString [] = []"
| "arrayToString [x] = operandToString x"
| "arrayToString (x # y # ys) = operandToString x @ '','' @ arrayToString (y # ys)"

text \<open>
  The objects \<^verbatim>\<open>dict_\<close> and \<^verbatim>\<open>dictOperators_\<close> are plain objects (\<^verbatim>\<open>{}\<close>) used as
  dictionaries: their own properties are a map from strings, and they inherit from
  \<^verbatim>\<open>Object.prototype\<close>. The operator \<^verbatim>\<open>key in obj\<close> and the read \<^verbatim>\<open>obj[key]\<close> both follow
  the prototype chain. \<open>Object_prototype\<close> lists the properties that ECMAScript 5
  defines there (section 15.2.4 of the standard), then the legacy ones of browsers
  (Annex B of ECMAScript 2015).
\<close>

definition Object_prototype :: "string list" where
  "Object_prototype =
     [''constructor'', ''toString'', ''toLocaleString'', ''valueOf'',
      ''hasOwnProperty'', ''isPrototypeOf'', ''propertyIsEnumerable'',
      ''__proto__'', ''__defineGetter__'', ''__defineSetter__'', ''__lookupGetter__'',
      ''__lookupSetter__'']"

datatype 'v property = Own 'v | Inherited string | Undefined

definition js_get :: "(string \<rightharpoonup> 'v) \<Rightarrow> string \<Rightarrow> 'v property" where
  "js_get obj k =
     (case obj k of
        Some v \<Rightarrow> Own v
      | None \<Rightarrow> if k \<in> set Object_prototype then Inherited k else Undefined)"

definition js_in :: "string \<Rightarrow> (string \<rightharpoonup> 'v) \<Rightarrow> bool" where
  "js_in k obj = (js_get obj k \<noteq> Undefined)"

subsection \<open>The byte cursor\<close>

text \<open>
  Modelled from the spec: \<^verbatim>\<open>tachyfont.BinaryFontEditor\<close>, the byte cursor, is required by
  the source file and is not part of it. The spec gives its contract: a current offset,
  a region of bytes, and a read of the next unsigned byte that advances the offset by
  one and fails with OutOfRange when no byte remains.
\<close>

record BinaryFontEditor =
  dataView :: "8 word list"
  offset :: nat

definition getUint8 :: "BinaryFontEditor \<Rightarrow> error + (int \<times> BinaryFontEditor)" where
  "getUint8 binEd =
     (if offset binEd < length (dataView binEd)
      then Inr (uint (dataView binEd ! offset binEd), binEd\<lparr>offset := offset binEd + 1\<rparr>)
      else Inl OutOfRange)"

subsection \<open>\<^verbatim>\<open>parseNibbles_\<close>: the real-number operand\<close>

text \<open>
  The \<^verbatim>\<open>for\<close> loop over the two nibbles of a byte either returns from the function
  (\<open>Return\<close>, on nibble \<^verbatim>\<open>0xf\<close>) or runs to its end with the string so far (\<open>Continue\<close>).
  Nibble \<^verbatim>\<open>0xd\<close> matches no branch and appends nothing.
\<close>

datatype for_result = Return string | Continue string

fun parseNibbles_for :: "int list \<Rightarrow> string \<Rightarrow> for_result" where
  "parseNibbles_for [] operand = Continue operand"
| "parseNibbles_for (nibble # nibbles) operand =
     (if nibble \<le> 9 then parseNibbles_for nibbles (operand @ toString nibble)
      else if nibble = 0xa then parseNibbles_for nibbles (operand @ ''.'')
      else if nibble = 0xb then parseNibbles_for nibbles (operand @ ''E'')
      else if nibble = 0xC then parseNibbles_for nibbles (operand @ ''-E'')
      else if nibble = 0xe then parseNibbles_for nibbles (operand @ ''-'')
      else if nibble = 0xf then Return operand
      else parseNibbles_for nibbles operand)"

text \<open>
  \<^verbatim>\<open>while (operandsCnt++ <= 48)\<close>: the test reads the counter before the increment, so
  the body runs for the counter values 0 to 48.
\<close>

function parseNibbles_while ::
  "nat \<Rightarrow> string \<Rightarrow> BinaryFontEditor \<Rightarrow> error + (string \<times> BinaryFontEditor)" where
  "parseNibbles_while operandsCnt operand binEd =
     (if operandsCnt \<le> 48 then
        (case getUint8 binEd of
           Inl e \<Rightarrow> Inl e
         | Inr (aByte, binEd1) \<Rightarrow>
             (case parseNibbles_for [js_sar aByte 4, js_and aByte 0xf] operand of
                Return s \<Rightarrow> Inr (s, binEd1)
              | Continue operand1 \<Rightarrow> parseNibbles_while (operandsCnt + 1) operand1 binEd1))
      else Inr (operand, binEd))"
  by pat_completeness auto
termination
  by (relation "measure (\<lambda>(operandsCnt, operand, binEd). 49 - operandsCnt)") auto

declare parseNibbles_while.simps [simp del]

definition parseNibbles' :: "BinaryFontEditor \<Rightarrow> error + (string \<times> BinaryFontEditor)" where
  "parseNibbles' binEd = parseNibbles_while 0 [] binEd"

subsection \<open>\<^verbatim>\<open>readOperandsOperator_\<close>: one operator with its operands\<close>

record keyValuePair' =
  key :: string
  val :: "operand list"

text \<open>
  The operand branches of the loop body, after the reserved bytes are excluded: the
  operand read at leading byte \<open>b0\<close>, or \<open>None\<close> when the variable \<^verbatim>\<open>operand\<close> is left
  \<^verbatim>\<open>undefined\<close> (the byte is an operator).
\<close>

definition readOperand ::
  "int \<Rightarrow> BinaryFontEditor \<Rightarrow> error + (operand option \<times> BinaryFontEditor)" where
  "readOperand b0 binEd =
     (if b0 \<ge> 32 \<and> b0 \<le> 246 then Inr (Some (Integer (b0 - 139)), binEd)
      else if b0 \<ge> 247 \<and> b0 \<le> 250 then
        (case getUint8 binEd of
           Inl e \<Rightarrow> Inl e
         | Inr (b1, binEd1) \<Rightarrow> Inr (Some (Integer ((b0 - 247) * 256 + b1 + 108)), binEd1))
      else if b0 \<ge> 251 \<and> b0 \<le> 254 then
        (case getUint8 binEd of
           Inl e \<Rightarrow> Inl e
         | Inr (b1, binEd1) \<Rightarrow> Inr (Some (Integer ((- (b0 - 251)) * 256 - b1 - 108)), binEd1))
      else if b0 = 28 then
        (case getUint8 binEd of
           Inl e \<Rightarrow> Inl e
         | Inr (b1, binEd1) \<Rightarrow>
             (case getUint8 binEd1 of
                Inl e \<Rightarrow> Inl e
              | Inr (b2, binEd2) \<Rightarrow> Inr (Some (Integer (js_or (js_shl b1 8) b2)), binEd2)))
      else if b0 = 29 then
        (case getUint8 binEd of
           Inl e \<Rightarrow> Inl e
         | Inr (b1, binEd1) \<Rightarrow>
             (case getUint8 binEd1 of
                Inl e \<Rightarrow> Inl e
              | Inr (b2, binEd2) \<Rightarrow>
                  (case getUint8 binEd2 of
                     Inl e \<Rightarrow> Inl e
                   | Inr (b3, binEd3) \<Rightarrow>
                       (case getUint8 binEd3 of
                          Inl e \<Rightarrow> Inl e
                        | Inr (b4, binEd4) \<Rightarrow>
                            Inr (Some (Integer
                              (js_or (js_or (js_or (js_shl b1 24) (js_shl b2 16)) (js_shl b3 8)) b4)),
                              binEd4)))))
      else if b0 = 30 then
        (case parseNibbles' binEd of
           Inl e \<Rightarrow> Inl e
         | Inr (s, binEd1) \<Rightarrow> Inr (Some (RealLiteral s), binEd1))
      else Inr (None, binEd))"

text \<open>
  The operator part of the loop body: byte 12 is an escape and the next byte is read;
  \<^verbatim>\<open>operator\<close> is the empty string before.
\<close>

definition readOperator ::
  "int \<Rightarrow> BinaryFontEditor \<Rightarrow> operand list \<Rightarrow> error + (keyValuePair' \<times> BinaryFontEditor)" where
  "readOperator b0 binEd operands =
     (if b0 = 12 then
        (case getUint8 binEd of
           Inl e \<Rightarrow> Inl e
         | Inr (op, binEd1) \<Rightarrow> Inr (\<lparr>key = ''12 '' @ toString op, val = operands\<rparr>, binEd1))
      else Inr (\<lparr>key = [] @ toString b0, val = operands\<rparr>, binEd))"

text \<open>
  \<^verbatim>\<open>while (operands.length <= 48)\<close>. When the test fails the function returns the
  operator it has, the empty string, with the operands.
\<close>

function readOperandsOperator_while ::
  "operand list \<Rightarrow> BinaryFontEditor \<Rightarrow> error + (keyValuePair' \<times> BinaryFontEditor)" where
  "readOperandsOperator_while operands binEd =
     (if length operands \<le> 48 then
        (case getUint8 binEd of
           Inl e \<Rightarrow> Inl e
         | Inr (b0, binEd1) \<Rightarrow>
             if (b0 \<ge> 22 \<and> b0 \<le> 27) \<or> b0 = 31 \<or> b0 = 255 then Inl (ReservedOperandByte b0)
             else
               (case readOperand b0 binEd1 of
                  Inl e \<Rightarrow> Inl e
                | Inr (Some operand, binEd2) \<Rightarrow>
                    readOperandsOperator_while (operands @ [operand]) binEd2
                | Inr (None, binEd2) \<Rightarrow> readOperator b0 binEd2 operands))
      else Inr (\<lparr>key = [], val = operands\<rparr>, binEd))"
  by pat_completeness auto
termination
  by (relation "measure (\<lambda>(operands, binEd). 49 - length operands)") auto

declare readOperandsOperator_while.simps [simp del]

definition readOperandsOperator' ::
  "BinaryFontEditor \<Rightarrow> error + (keyValuePair' \<times> BinaryFontEditor)" where
  "readOperandsOperator' binEd = readOperandsOperator_while [] binEd"

subsection \<open>The Dict object\<close>

text \<open>
  The constructor creates \<^verbatim>\<open>keys_\<close> only under \<^verbatim>\<open>goog.DEBUG\<close>, Closure's build flag
  (true unless a build defines it false), which is a parameter of the functions that
  test it. Without it \<^verbatim>\<open>keys_\<close> stays \<^verbatim>\<open>undefined\<close> (\<open>None\<close>). \<^verbatim>\<open>dictOperators_\<close> is
  declared without a value, so it is \<^verbatim>\<open>undefined\<close> until \<^verbatim>\<open>setOperators\<close> stores its
  argument, which is \<^verbatim>\<open>undefined\<close> again when the caller gave no map.
\<close>

record CffDict =
  name' :: string
  dataView' :: "8 word list"
  keys' :: "string list option"
  dict' :: "string \<rightharpoonup> operand list"
  dictOperators' :: "(string \<rightharpoonup> string) option"

definition CffDict :: "bool \<Rightarrow> string \<Rightarrow> 8 word list \<Rightarrow> CffDict" where
  "CffDict goog_DEBUG name view =
     \<lparr>name' = name, dataView' = view,
      keys' = (if goog_DEBUG then Some [] else None),
      dict' = Map.empty, dictOperators' = None\<rparr>"

definition setOperators :: "CffDict \<Rightarrow> (string \<rightharpoonup> string) option \<Rightarrow> CffDict" where
  "setOperators this dictOperators = this\<lparr>dictOperators' := dictOperators\<rparr>"

text \<open>
  The text \<^verbatim>\<open>init_\<close> passes to \<^verbatim>\<open>goog.log.info\<close>: the operands and the operator's name in
  \<^verbatim>\<open>dictOperators_\<close> when that map is there and has the key, the key itself otherwise.
  A property inherited from \<^verbatim>\<open>Object.prototype\<close> is a function, whose text is the
  engine's.
\<close>

definition logLine :: "CffDict \<Rightarrow> keyValuePair' \<Rightarrow> string" where
  "logLine this keyValuePair =
     (case dictOperators' this of
        None \<Rightarrow> ''  '' @ arrayToString (val keyValuePair) @ '' '' @ key keyValuePair
      | Some operators \<Rightarrow>
          (case js_get operators (key keyValuePair) of
             Undefined \<Rightarrow> ''  '' @ arrayToString (val keyValuePair) @ '' '' @ key keyValuePair
           | Own s \<Rightarrow> ''  '' @ arrayToString (val keyValuePair) @ '' '' @ s
           | Inherited f \<Rightarrow>
               ''  '' @ arrayToString (val keyValuePair) @ '' '' @
               ''function '' @ f @ ''() { [native code] }''))"

text \<open>
  \<^verbatim>\<open>while (binEd.offset < this.dataView_.byteLength)\<close>. The lines logged by a decode
  that completes are returned with the Dict; \<^verbatim>\<open>this.keys_.push\<close> throws a \<^verbatim>\<open>TypeError\<close>
  when \<^verbatim>\<open>keys_\<close> is \<^verbatim>\<open>undefined\<close>. A decode that throws returns the exception alone:
  the lines logged before it, among them the scanner's line on a reserved byte, are not
  kept. The loop ends because a scan that returns has read at least one byte.
\<close>

function init_while ::
  "bool \<Rightarrow> CffDict \<Rightarrow> BinaryFontEditor \<Rightarrow> string list \<Rightarrow> error + (CffDict \<times> string list)" where
  "init_while goog_DEBUG this binEd log =
     (if offset binEd < length (dataView' this) then
        (case readOperandsOperator' binEd of
           Inl e \<Rightarrow> Inl e
         | Inr (keyValuePair, binEd1) \<Rightarrow>
             (case keys' this of
                None \<Rightarrow> Inl TypeError
              | Some ks \<Rightarrow>
                  init_while goog_DEBUG
                    (this\<lparr>keys' := Some (ks @ [key keyValuePair]),
                          dict' := (dict' this)(key keyValuePair \<mapsto> val keyValuePair)\<rparr>)
                    binEd1
                    (if goog_DEBUG then log @ [logLine this keyValuePair] else log)))
      else Inr (this, log))"
  by pat_completeness auto
termination
proof (relation "measure (\<lambda>(goog_DEBUG, this, binEd, log). length (dataView' this) - offset binEd)")
  show "wf (measure (\<lambda>(goog_DEBUG, this, binEd, log). length (dataView' this) - offset binEd))"
    by simp
next
  fix goog_DEBUG :: bool and this :: CffDict and binEd :: BinaryFontEditor
    and log :: "string list" and x2 :: "keyValuePair' \<times> BinaryFontEditor"
    and keyValuePair binEd1 ks
  assume inside: "offset binEd < length (dataView' this)"
    and scan: "readOperandsOperator' binEd = Inr x2" and x2: "(keyValuePair, binEd1) = x2"
  have byte: "offset b1 = offset b + 1" if "getUint8 b = Inr (x, b1)" for b x b1
    using that by (auto simp: getUint8_def split: if_splits)
  have nibbles: "offset b \<le> offset b1"
    if "parseNibbles_while c s b = Inr (r, b1)" for c s b r b1
    using that
  proof (induction c s b rule: parseNibbles_while.induct)
    case (1 operandsCnt operand binEd)
    show ?case
    proof (cases "operandsCnt \<le> 48")
      case False
      with "1.prems" show ?thesis by (simp add: parseNibbles_while.simps)
    next
      case True
      with "1.prems" obtain aByte b2 where g: "getUint8 binEd = Inr (aByte, b2)"
        by (auto simp: parseNibbles_while.simps [of operandsCnt] split: sum.splits)
      show ?thesis
      proof (cases "parseNibbles_for [js_sar aByte 4, js_and aByte 0xf] operand")
        case (Return s)
        with True g "1.prems" byte [OF g] show ?thesis
          by (simp add: parseNibbles_while.simps [of operandsCnt])
      next
        case (Continue operand1)
        with True g "1.prems" have "parseNibbles_while (operandsCnt + 1) operand1 b2 = Inr (r, b1)"
          by (simp add: parseNibbles_while.simps [of operandsCnt])
        from "1.IH" [OF True g refl Continue this] byte [OF g]
        show ?thesis by simp
      qed
    qed
  qed
  have operand: "offset b \<le> offset b1" if "readOperand b0 b = Inr (r, b1)" for b0 b r b1
  proof -
    have one: "offset b \<le> offset b2" if "getUint8 b = Inr (x, b2)" for b x b2
      using byte [OF that] by simp
    have two: "offset b \<le> offset b3"
      if "getUint8 b = Inr (x, b2)" "getUint8 b2 = Inr (y, b3)" for b x b2 y b3
      using byte [OF that(1)] byte [OF that(2)] by simp
    consider (i1) "b0 \<ge> 32 \<and> b0 \<le> 246" | (i2) "b0 \<ge> 247 \<and> b0 \<le> 250"
      | (i3) "b0 \<ge> 251 \<and> b0 \<le> 254" | (i4) "b0 = 28" | (i5) "b0 = 29" | (i6) "b0 = 30"
      | (lo) "b0 < 32" "b0 \<noteq> 28" "b0 \<noteq> 29" "b0 \<noteq> 30" | (hi) "b0 > 254"
      by linarith
    then show ?thesis
    proof cases
      case i1
      with that show ?thesis by (simp add: readOperand_def)
    next
      case i2
      with that show ?thesis
        by (auto simp: readOperand_def split: sum.splits dest!: byte)
    next
      case i3
      with that show ?thesis
        by (auto simp: readOperand_def split: sum.splits dest!: byte)
    next
      case i4
      with that show ?thesis
        by (auto simp: readOperand_def split: sum.splits dest!: byte)
    next
      case i5
      with that show ?thesis
        by (auto simp: readOperand_def split: sum.splits dest!: byte)
    next
      case i6
      with that show ?thesis
        by (auto simp: readOperand_def parseNibbles'_def split: sum.splits dest: nibbles)
    next
      case lo
      with that show ?thesis by (simp add: readOperand_def)
    next
      case hi
      with that show ?thesis by (simp add: readOperand_def)
    qed
  qed
  have operator: "offset b \<le> offset b1" if "readOperator b0 b ops = Inr (r, b1)" for b0 b ops r b1
    using that unfolding readOperator_def
    by (auto split: if_splits sum.splits dest!: byte)
  have loop: "offset b \<le> offset b1 \<and> (length ops \<le> 48 \<longrightarrow> offset b < offset b1)"
    if "readOperandsOperator_while ops b = Inr (kv, b1)" for ops b kv b1
    using that
  proof (induction ops b rule: readOperandsOperator_while.induct)
    case (1 operands binEd)
    show ?case
    proof (cases "length operands \<le> 48")
      case False
      with "1.prems" show ?thesis by (simp add: readOperandsOperator_while.simps)
    next
      case True
      note unfold = readOperandsOperator_while.simps [of operands binEd]
      from True "1.prems" obtain b0 b2 where g: "getUint8 binEd = Inr (b0, b2)"
        by (auto simp: unfold split: sum.splits)
      from True g "1.prems" have nres: "\<not> ((b0 \<ge> 22 \<and> b0 \<le> 27) \<or> b0 = 31 \<or> b0 = 255)"
        by (auto simp: unfold split: if_splits)
      then have nres': "\<not> (b0 \<ge> 22 \<and> b0 \<le> 27)" "b0 \<noteq> 31" "b0 \<noteq> 255"
        by auto
      from True g nres' "1.prems" obtain r b3 where ro: "readOperand b0 b2 = Inr (r, b3)"
        by (auto simp: unfold split: sum.splits)
      show ?thesis
      proof (cases r)
        case None
        with True g nres' ro "1.prems" have "readOperator b0 b3 operands = Inr (kv, b1)"
          by (auto simp: unfold split: if_splits)
        from operator [OF this] operand [OF ro] byte [OF g] show ?thesis by simp
      next
        case (Some opd)
        with True g nres' ro "1.prems"
        have "readOperandsOperator_while (operands @ [opd]) b3 = Inr (kv, b1)"
          by (auto simp: unfold split: if_splits)
        from "1.IH" [OF True g refl nres ro [unfolded Some] refl refl this]
          operand [OF ro] byte [OF g]
        show ?thesis by simp
      qed
    qed
  qed
  from scan x2 have "readOperandsOperator_while [] binEd = Inr (keyValuePair, binEd1)"
    by (simp add: readOperandsOperator'_def)
  from loop [OF this] have "offset binEd < offset binEd1" by simp
  with inside
  show "((goog_DEBUG,
          this\<lparr>keys' := Some (ks @ [key keyValuePair]),
                dict' := (dict' this)(key keyValuePair \<mapsto> val keyValuePair)\<rparr>,
          binEd1, if goog_DEBUG then log @ [logLine this keyValuePair] else log),
         goog_DEBUG, this, binEd, log)
        \<in> measure (\<lambda>(goog_DEBUG, this, binEd, log). length (dataView' this) - offset binEd)"
    by simp
qed

declare init_while.simps [simp del]

definition init' :: "bool \<Rightarrow> CffDict \<Rightarrow> error + (CffDict \<times> string list)" where
  "init' goog_DEBUG this =
     init_while goog_DEBUG this \<lparr>dataView = dataView' this, offset = 0\<rparr> []"

text \<open>
  \<^verbatim>\<open>new DataView(buffer, offset, length)\<close> throws a \<^verbatim>\<open>RangeError\<close> unless the region
  lies inside the buffer; the view is then the region's bytes.
\<close>

definition loadDict ::
  "bool \<Rightarrow> string \<Rightarrow> 8 word list \<Rightarrow> nat \<Rightarrow> nat \<Rightarrow> (string \<rightharpoonup> string) option
    \<Rightarrow> error + (CffDict \<times> string list)" where
  "loadDict goog_DEBUG name buffer offs len opt_dictOperators =
     (if offs + len \<le> length buffer then
        (let view = take len (drop offs buffer);
             dict = CffDict goog_DEBUG name view;
             dict = (if goog_DEBUG then setOperators dict opt_dictOperators else dict)
         in init' goog_DEBUG dict)
      else Inl OutOfRange)"

definition getName :: "CffDict \<Rightarrow> string" where
  "getName this = name' this"

text \<open>\<^verbatim>\<open>getKeys\<close> returns \<^verbatim>\<open>keys_\<close>, which is \<^verbatim>\<open>undefined\<close> (\<open>None\<close>) without \<^verbatim>\<open>goog.DEBUG\<close>.\<close>

definition getKeys :: "CffDict \<Rightarrow> string list option" where
  "getKeys this = keys' this"

text \<open>
  \<^verbatim>\<open>get\<close> tests \<^verbatim>\<open>key in this.dict_\<close> and returns \<^verbatim>\<open>this.dict_[key]\<close>: the operand list
  stored under the key, or the member of \<^verbatim>\<open>Object.prototype\<close> of that name.
\<close>

definition get :: "CffDict \<Rightarrow> string \<Rightarrow> error + operand list property" where
  "get this k =
     (if js_in k (dict' this) then Inr (js_get (dict' this) k)
      else Inl (InvalidKeyLookup (''CFF '' @ name' this @ '' DICT: invalid key: '' @ k)))"

subsection \<open>Reference notions for the properties\<close>

text \<open>
  The signed 32-bit big-endian interpretation of four bytes, as the claim on the
  five-byte operand words it: the unsigned big-endian value, less \<open>2 ^ 32\<close> when its top
  bit is set.
\<close>

definition int32_big_endian :: "int \<Rightarrow> int \<Rightarrow> int \<Rightarrow> int \<Rightarrow> int" where
  "int32_big_endian b1 b2 b3 b4 =
     (let u = b1 * 2 ^ 24 + b2 * 2 ^ 16 + b3 * 2 ^ 8 + b4
      in if u < 2 ^ 31 then u else u - 2 ^ 32)"

text \<open>
  The key/value pairs a decode produces, in the order of the byte stream, as the spec
  words the decoder: the scanner is invoked repeatedly while the cursor's offset is
  below the length of the region. \<open>produces n binEd kvs\<close>: from cursor \<open>binEd\<close>, over a
  region of \<open>n\<close> bytes, the successive scans return \<open>kvs\<close> and the last one ends at or
  past the end of the region.
\<close>

inductive produces :: "nat \<Rightarrow> BinaryFontEditor \<Rightarrow> keyValuePair' list \<Rightarrow> bool" where
  produces_end: "\<not> offset binEd < n \<Longrightarrow> produces n binEd []"
| produces_scan:
    "offset binEd < n \<Longrightarrow> readOperandsOperator' binEd = Inr (keyValuePair, binEd1) \<Longrightarrow>
     produces n binEd1 kvs \<Longrightarrow> produces n binEd (keyValuePair # kvs)"

code_pred produces .

section \<open>Properties\<close>

subsection \<open>One step of the cursor and of the scanner's loop\<close>

lemma getUint8_next:
  "offset binEd < length (dataView binEd) \<Longrightarrow>
   getUint8 binEd =
     Inr (uint (dataView binEd ! offset binEd), binEd\<lparr>offset := offset binEd + 1\<rparr>)"
  by (simp add: getUint8_def)

lemma scan_reserved:
  assumes "length operands \<le> 48" and "getUint8 binEd = Inr (b0, binEd1)"
    and "b0 \<in> {22, 23, 24, 25, 26, 27, 31, 255}"
  shows "readOperandsOperator_while operands binEd = Inl (ReservedOperandByte b0)"
  using assms by (auto simp: readOperandsOperator_while.simps [of operands binEd])

lemma scan_not_reserved:
  assumes "length operands \<le> 48" and "getUint8 binEd = Inr (b0, binEd1)"
    and "b0 < 22 \<or> (27 < b0 \<and> b0 \<noteq> 31 \<and> b0 \<noteq> 255)"
  shows "readOperandsOperator_while operands binEd =
     (case readOperand b0 binEd1 of
        Inl e \<Rightarrow> Inl e
      | Inr (Some operand, binEd2) \<Rightarrow> readOperandsOperator_while (operands @ [operand]) binEd2
      | Inr (None, binEd2) \<Rightarrow> readOperator b0 binEd2 operands)"
  using assms by (auto simp: readOperandsOperator_while.simps [of operands binEd])

subsection \<open>Reserved leading bytes\<close>

text \<open>
  C1. When the byte under the cursor is one of 22 to 27, 31 and 255 and the scanner
  reads it as a leading byte, the scan fails with ReservedOperandByte carrying that
  byte, whatever operands it has accumulated (at most 48, so that the loop runs); the
  decode loop standing at that byte fails with the same error, whatever Dict it has
  built so far; and \<^verbatim>\<open>loadDict\<close> on a region that starts with such a byte fails with it.
  The result is the error alone: no Dict, partial or not, is returned.
\<close>

theorem reserved_leading_byte_aborts_decode:
  assumes "offset binEd < length (dataView binEd)"
    and "uint (dataView binEd ! offset binEd) \<in> {22, 23, 24, 25, 26, 27, 31, 255}"
  shows "(length operands \<le> 48 \<longrightarrow>
            readOperandsOperator_while operands binEd =
              Inl (ReservedOperandByte (uint (dataView binEd ! offset binEd)))) \<and>
         (dataView' this = dataView binEd \<longrightarrow>
            init_while goog_DEBUG this binEd log =
              Inl (ReservedOperandByte (uint (dataView binEd ! offset binEd)))) \<and>
         (offs + len \<le> length buffer \<and> take len (drop offs buffer) = dataView binEd \<and>
          offset binEd = 0 \<longrightarrow>
            loadDict goog_DEBUG name buffer offs len opt_dictOperators =
              Inl (ReservedOperandByte (uint (dataView binEd ! offset binEd))))"
proof -
  let ?b0 = "uint (dataView binEd ! offset binEd)"
  note byte = getUint8_next [OF assms(1)]
  have scan: "readOperandsOperator_while ops binEd = Inl (ReservedOperandByte ?b0)"
    if "length ops \<le> 48" for ops
    using that byte assms(2) by (rule scan_reserved)
  have loop: "init_while D t binEd l = Inl (ReservedOperandByte ?b0)"
    if "dataView' t = dataView binEd" for D t l
    using that assms(1) scan [of "[]"]
    by (simp add: init_while.simps [of D t binEd] readOperandsOperator'_def)
  have load: "loadDict goog_DEBUG name buffer offs len opt_dictOperators =
      Inl (ReservedOperandByte ?b0)"
    if "offs + len \<le> length buffer" "take len (drop offs buffer) = dataView binEd"
      "offset binEd = 0"
  proof -
    have "binEd = \<lparr>dataView = take len (drop offs buffer), offset = 0\<rparr>"
      using that by simp
    then show ?thesis
      using that(1) loop
      by (auto simp: loadDict_def init'_def CffDict_def setOperators_def Let_def)
  qed
  from scan loop load show ?thesis by blast
qed

theorem reserved_leading_byte_aborts_decode_witness:
  "loadDict True ''Top'' [0x16] 0 1 None = Inl (ReservedOperandByte 22) \<and>
   readOperandsOperator_while [Integer 0] \<lparr>dataView = [0x8B, 0x16], offset = 1\<rparr>
     = Inl (ReservedOperandByte 22)"
  using reserved_leading_byte_aborts_decode
    [where binEd = "\<lparr>dataView = [0x16], offset = 0\<rparr>" and offs = 0 and len = 1
       and buffer = "[0x16]" and goog_DEBUG = True and name = "''Top''"
       and opt_dictOperators = None]
    reserved_leading_byte_aborts_decode
    [where binEd = "\<lparr>dataView = [0x8B, 0x16], offset = 1\<rparr>" and operands = "[Integer 0]"]
  by simp

subsection \<open>One-byte integers\<close>




subsection \<open>The bound on the operands of one scan\<close>

lemma digits_not_empty: "digits n \<noteq> []"
  by (subst digits.simps) simp

lemma toString_not_empty: "toString i \<noteq> []"
  by (simp add: toString_def digits_not_empty)

lemma readOperator_result:
  "readOperator b0 binEd operands = Inr (kv, binEd1) \<Longrightarrow> val kv = operands \<and> key kv \<noteq> []"
  by (auto simp: readOperator_def toString_not_empty split: if_splits sum.splits)

lemma scan_full:
  "length operands = 49 \<Longrightarrow>
   readOperandsOperator_while operands binEd = Inr (\<lparr>key = [], val = operands\<rparr>, binEd)"
  by (simp add: readOperandsOperator_while.simps [of operands binEd])

lemma scan_cap:
  "readOperandsOperator_while operands binEd = Inr (kv, binEd1) \<Longrightarrow> length operands \<le> 49 \<Longrightarrow>
   length (val kv) \<le> 49 \<and> (key kv = [] \<longleftrightarrow> length (val kv) = 49)"
proof (induction operands binEd rule: readOperandsOperator_while.induct)
  case (1 operands binEd)
  show ?case
  proof (cases "length operands \<le> 48")
    case False
    with "1.prems" have "length operands = 49" by simp
    from scan_full [OF this, of binEd] "1.prems"(1) this show ?thesis by auto
  next
    case True
    note unfold = readOperandsOperator_while.simps [of operands binEd]
    from True "1.prems" obtain b0 b2 where g: "getUint8 binEd = Inr (b0, b2)"
      by (auto simp: unfold split: sum.splits)
    from True g "1.prems" have nres: "\<not> ((b0 \<ge> 22 \<and> b0 \<le> 27) \<or> b0 = 31 \<or> b0 = 255)"
      by (auto simp: unfold split: if_splits)
    from True g nres "1.prems" obtain r b3 where ro: "readOperand b0 b2 = Inr (r, b3)"
      by (auto simp: unfold split: sum.splits if_splits)
    show ?thesis
    proof (cases r)
      case None
      with True g nres ro "1.prems" have "readOperator b0 b3 operands = Inr (kv, binEd1)"
        by (auto simp: unfold split: if_splits)
      from readOperator_result [OF this] True show ?thesis by simp
    next
      case (Some opd)
      with True g nres ro "1.prems"
      have "readOperandsOperator_while (operands @ [opd]) b3 = Inr (kv, binEd1)"
        by (auto simp: unfold split: if_splits)
      from "1.IH" [OF True g refl nres ro [unfolded Some] refl refl this] True
      show ?thesis by simp
    qed
  qed
qed

text \<open>
  C3, as amended. A scan call returns at most 49 operands, and it returns 49 operands
  exactly when it returns the empty string as operator; and the loop entered with 49
  operands returns them under the empty string without reading a byte. The claim as
  stated, that the byte after the 49th operand is read as the terminating operator,
  fails: on 49 one-byte operands followed by the operator byte 5 the scan returns the
  empty operator and leaves the cursor on that byte.
\<close>

theorem operand_cap:
  "(readOperandsOperator' binEd = Inr (kv, binEd1) \<longrightarrow>
      length (val kv) \<le> 49 \<and> (length (val kv) = 49 \<longleftrightarrow> key kv = [])) \<and>
   (length operands = 49 \<longrightarrow>
      readOperandsOperator_while operands binEd = Inr (\<lparr>key = [], val = operands\<rparr>, binEd))"
proof (intro conjI impI)
  assume "readOperandsOperator' binEd = Inr (kv, binEd1)"
  then have "readOperandsOperator_while [] binEd = Inr (kv, binEd1)"
    by (simp add: readOperandsOperator'_def)
  from scan_cap [OF this] show "length (val kv) \<le> 49" "(length (val kv) = 49) = (key kv = [])"
    by auto
next
  assume "length operands = 49"
  then show "readOperandsOperator_while operands binEd = Inr (\<lparr>key = [], val = operands\<rparr>, binEd)"
    by (rule scan_full)
qed

theorem operand_cap_witness:
  "readOperandsOperator' \<lparr>dataView = [0x8B, 5], offset = 0\<rparr> =
     Inr (\<lparr>key = ''5'', val = [Integer 0]\<rparr>, \<lparr>dataView = [0x8B, 5], offset = 2\<rparr>) \<and>
   length (val \<lparr>key = ''5'', val = [Integer 0]\<rparr>) \<le> 49 \<and>
   (length (val \<lparr>key = ''5'', val = [Integer 0]\<rparr>) = 49) =
     (key \<lparr>key = ''5'', val = [Integer 0]\<rparr> = []) \<and>
   readOperandsOperator_while (replicate 49 (Integer 0)) \<lparr>dataView = [5], offset = 0\<rparr> =
     Inr (\<lparr>key = [], val = replicate 49 (Integer 0)\<rparr>, \<lparr>dataView = [5], offset = 0\<rparr>)"
proof -
  have scan: "readOperandsOperator' \<lparr>dataView = [0x8B, 5], offset = 0\<rparr> =
     Inr (\<lparr>key = ''5'', val = [Integer 0]\<rparr>, \<lparr>dataView = [0x8B, 5], offset = 2\<rparr>)"
    by code_simp
  have full: "length (replicate 49 (Integer 0)) = 49"
    by simp
  from operand_cap [where binEd = "\<lparr>dataView = [0x8B, 5], offset = 0\<rparr>"
      and kv = "\<lparr>key = ''5'', val = [Integer 0]\<rparr>"
      and ?binEd1.0 = "\<lparr>dataView = [0x8B, 5], offset = 2\<rparr>"]
    operand_cap [where binEd = "\<lparr>dataView = [5], offset = 0\<rparr>"
      and operands = "replicate 49 (Integer 0)"] scan full
  show ?thesis by blast
qed

theorem next_byte_not_read_as_operator_counterexample:
  "readOperandsOperator' \<lparr>dataView = replicate 49 0x8B @ [5], offset = 0\<rparr> =
     Inr (\<lparr>key = [], val = replicate 49 (Integer 0)\<rparr>,
          \<lparr>dataView = replicate 49 0x8B @ [5], offset = 49\<rparr>) \<and>
   readOperandsOperator' \<lparr>dataView = replicate 49 0x8B @ [5], offset = 0\<rparr> \<noteq>
     Inr (\<lparr>key = ''5'', val = replicate 49 (Integer 0)\<rparr>,
          \<lparr>dataView = replicate 49 0x8B @ [5], offset = 50\<rparr>)"
proof -
  have "readOperandsOperator' \<lparr>dataView = replicate 49 0x8B @ [5], offset = 0\<rparr> =
     Inr (\<lparr>key = [], val = replicate 49 (Integer 0)\<rparr>,
          \<lparr>dataView = replicate 49 0x8B @ [5], offset = 49\<rparr>)"
    by code_simp
  then show ?thesis by simp
qed

text \<open>
  The empty operator in the decode loop, where the key list exists. The scanner's loop
  entered with 49 operands returns them under the empty string as operator, the cursor
  unmoved. When a scan inside the decode loop returns 49 operands, its key is the empty
  string, and, \<^verbatim>\<open>keys_\<close> being an array, the loop goes on with the empty string appended
  to the key list and mapped to those operands; when the cursor is then at the end of
  the region the decode returns that Dict.
\<close>

lemma full_scan_records_empty_operator:
  "(length operands = 49 \<longrightarrow>
      readOperandsOperator_while operands binEd = Inr (\<lparr>key = [], val = operands\<rparr>, binEd)) \<and>
   (offset binEd < length (dataView' this) \<and>
    readOperandsOperator' binEd = Inr (kv, binEd') \<and> length (val kv) = 49 \<and>
    keys' this = Some ks \<longrightarrow>
      key kv = [] \<and>
      init_while goog_DEBUG this binEd log =
        init_while goog_DEBUG
          (this\<lparr>keys' := Some (ks @ [[]]), dict' := (dict' this)([] \<mapsto> val kv)\<rparr>)
          binEd' (if goog_DEBUG then log @ [logLine this kv] else log) \<and>
      (\<not> offset binEd' < length (dataView' this) \<longrightarrow>
         init_while goog_DEBUG this binEd log =
           Inr (this\<lparr>keys' := Some (ks @ [[]]), dict' := (dict' this)([] \<mapsto> val kv)\<rparr>,
                if goog_DEBUG then log @ [logLine this kv] else log)))"
proof (intro conjI impI)
  assume "length operands = 49"
  then show "readOperandsOperator_while operands binEd = Inr (\<lparr>key = [], val = operands\<rparr>, binEd)"
    by (rule scan_full)
next
  assume a: "offset binEd < length (dataView' this) \<and>
    readOperandsOperator' binEd = Inr (kv, binEd') \<and> length (val kv) = 49 \<and>
    keys' this = Some ks"
  then have "readOperandsOperator_while [] binEd = Inr (kv, binEd')"
    by (simp add: readOperandsOperator'_def)
  from scan_cap [OF this] a show empty: "key kv = []"
    by simp
  let ?dict = "this\<lparr>keys' := Some (ks @ [[]]), dict' := (dict' this)([] \<mapsto> val kv)\<rparr>"
  let ?log = "if goog_DEBUG then log @ [logLine this kv] else log"
  from a empty
  show step: "init_while goog_DEBUG this binEd log = init_while goog_DEBUG ?dict binEd' ?log"
    by (simp add: init_while.simps [of goog_DEBUG this binEd log])
  assume "\<not> offset binEd' < length (dataView' this)"
  then have "init_while goog_DEBUG ?dict binEd' ?log = Inr (?dict, ?log)"
    by (simp add: init_while.simps [of goog_DEBUG ?dict binEd' ?log])
  with step show "init_while goog_DEBUG this binEd log = Inr (?dict, ?log)"
    by simp
qed

lemma full_scan_records_empty_operator_example:
  "loadDict True ''Top'' (replicate 49 0x8B) 0 49 None =
     Inr (\<lparr>name' = ''Top'', dataView' = replicate 49 0x8B, keys' = Some [[]],
            dict' = [[] \<mapsto> replicate 49 (Integer 0)], dictOperators' = None\<rparr>,
          [''  0,0,0,0,0,0,0,0,0,0,0,0,0,0,0,0,0,0,0,0,0,0,0,0,0,0,0,0,0,0,0,0,0,0,0,0,0,0,0,0,0,0,0,0,0,0,0,0,0 ''])"
proof -
  let ?view = "replicate 49 (0x8B :: 8 word)"
  let ?dict = "CffDict True ''Top'' ?view"
  let ?kv = "\<lparr>key = [], val = replicate 49 (Integer 0)\<rparr>"
  let ?end = "\<lparr>dataView = ?view, offset = 49\<rparr>"
  have scan: "readOperandsOperator' \<lparr>dataView = ?view, offset = 0\<rparr> = Inr (?kv, ?end)"
    by code_simp
  have line: "logLine ?dict ?kv =
    ''  0,0,0,0,0,0,0,0,0,0,0,0,0,0,0,0,0,0,0,0,0,0,0,0,0,0,0,0,0,0,0,0,0,0,0,0,0,0,0,0,0,0,0,0,0,0,0,0,0 ''"
    by code_simp
  have "init_while True ?dict \<lparr>dataView = ?view, offset = 0\<rparr> [] =
      Inr (?dict\<lparr>keys' := Some ([] @ [[]]), dict' := (dict' ?dict)([] \<mapsto> val ?kv)\<rparr>,
           if True then [] @ [logLine ?dict ?kv] else [])"
    using full_scan_records_empty_operator
      [where this = ?dict and binEd = "\<lparr>dataView = ?view, offset = 0\<rparr>" and kv = ?kv
         and binEd' = ?end and ks = "[]" and goog_DEBUG = True and log = "[]" and operands = "[]"] scan
    by (auto simp: CffDict_def)
  then show ?thesis
    by (simp add: loadDict_def init'_def setOperators_def Let_def line) (simp add: CffDict_def)
qed

text \<open>
  C10. The claim is that a scan that has accumulated 49 operands returns the empty
  string as operator without reading a further byte, and that the decode loop then
  records the empty string in the key list and in the mapping rather than failing. The
  scan does so. The decode loop records it only where the constructor has created
  \<^verbatim>\<open>keys_\<close>, under \<^verbatim>\<open>goog.DEBUG\<close> (\<open>full_scan_records_empty_operator\<close>); the push onto
  \<^verbatim>\<open>keys_\<close> in \<^verbatim>\<open>init_\<close> is not under that flag, and in a build without it the decode of
  a region of 49 one-byte operands fails with a \<^verbatim>\<open>TypeError\<close> and returns no Dict.
\<close>

theorem full_scan_fails_without_key_list:
  "readOperandsOperator' \<lparr>dataView = replicate 49 0x8B, offset = 0\<rparr> =
     Inr (\<lparr>key = [], val = replicate 49 (Integer 0)\<rparr>,
          \<lparr>dataView = replicate 49 0x8B, offset = 49\<rparr>) \<and>
   loadDict False ''Top'' (replicate 49 0x8B) 0 49 None = Inl TypeError"
proof -
  have scan: "readOperandsOperator' \<lparr>dataView = replicate 49 0x8B, offset = 0\<rparr> =
     Inr (\<lparr>key = [], val = replicate 49 (Integer 0)\<rparr>,
          \<lparr>dataView = replicate 49 0x8B, offset = 49\<rparr>)"
    by code_simp
  let ?dict = "CffDict False ''Top'' (replicate 49 0x8B)"
  have push: "init_while False d b [] = Inl TypeError"
    if "keys' d = None" "offset b < length (dataView' d)" "readOperandsOperator' b = Inr (kv, b1)"
    for d b kv b1
    using that by (simp add: init_while.simps [of False d b])
  have "init_while False ?dict \<lparr>dataView = replicate 49 0x8B, offset = 0\<rparr> [] = Inl TypeError"
    by (rule push [OF _ _ scan]) (simp_all add: CffDict_def)
  then have "loadDict False ''Top'' (replicate 49 0x8B) 0 49 None = Inl TypeError"
    by (simp add: loadDict_def init'_def Let_def) (simp add: CffDict_def)
  with scan show ?thesis by simp
qed

subsection \<open>The bitwise operators on bytes\<close>

lemma or_push:
  fixes a b :: int
  assumes "0 \<le> b" and "b < 2 ^ n"
  shows "push_bit n a OR b = a * 2 ^ n + b"
proof -
  have "take_bit n b OR push_bit n a = take_bit n b + push_bit n a"
    using concat_bit_def [of n b a] concat_bit_eq [of n b a] by simp
  moreover have "take_bit n b = b"
    using assms by (simp add: take_bit_int_eq_self)
  ultimately show ?thesis
    by (simp add: or.commute push_bit_eq_mult)
qed

lemma ToInt32_sint: "ToInt32 (sint w) = w"
  by (simp add: ToInt32_def)

lemma sint_ToInt32:
  "sint (ToInt32 x) = (x + 2 ^ 31) mod 2 ^ 32 - 2 ^ 31"
  by (simp add: ToInt32_def int_word_sint)

lemma ToInt32_push_bit: "push_bit n (ToInt32 x) = ToInt32 (push_bit n x)"
  by (simp add: ToInt32_def push_bit_eq_mult)

lemma ToInt32_or: "ToInt32 x OR ToInt32 y = ToInt32 (x OR y)"
  by (simp add: ToInt32_def word_wi_log_defs)

lemma ToInt32_and: "ToInt32 x AND ToInt32 y = ToInt32 (x AND y)"
  by (simp add: ToInt32_def word_wi_log_defs)

lemma js_or_shl_16:
  assumes "0 \<le> b1" "b1 < 256" "0 \<le> b2" "b2 < 256"
  shows "js_or (js_shl b1 8) b2 = b1 * 256 + b2"
proof -
  have "js_or (js_shl b1 8) b2 = sint (ToInt32 (push_bit 8 b1 OR b2))"
    by (simp add: js_or_def js_shl_def ToInt32_sint ToInt32_push_bit ToInt32_or)
  also have "push_bit 8 b1 OR b2 = b1 * 256 + b2"
    using or_push [of b2 8 b1] assms by simp
  also have "sint (ToInt32 (b1 * 256 + b2)) = b1 * 256 + b2"
    using assms by (simp add: sint_ToInt32)
  finally show ?thesis .
qed

lemma js_or_shl_32:
  assumes "0 \<le> b1" "b1 < 256" "0 \<le> b2" "b2 < 256" "0 \<le> b3" "b3 < 256" "0 \<le> b4" "b4 < 256"
  shows "js_or (js_or (js_or (js_shl b1 24) (js_shl b2 16)) (js_shl b3 8)) b4 =
    (b1 * 16777216 + b2 * 65536 + b3 * 256 + b4 + 2 ^ 31) mod 2 ^ 32 - 2 ^ 31"
proof -
  have "js_or (js_or (js_or (js_shl b1 24) (js_shl b2 16)) (js_shl b3 8)) b4 =
      sint (ToInt32 (push_bit 24 b1 OR push_bit 16 b2 OR push_bit 8 b3 OR b4))"
    by (simp add: js_or_def js_shl_def ToInt32_sint ToInt32_push_bit ToInt32_or or.assoc)
  also have "push_bit 24 b1 OR push_bit 16 b2 OR push_bit 8 b3 OR b4 =
      push_bit 8 (push_bit 8 (push_bit 8 b1 OR b2) OR b3) OR b4"
    by (simp add: push_bit_or push_bit_push_bit or.assoc)
  also have "push_bit 8 b1 OR b2 = b1 * 256 + b2"
    using or_push [of b2 8 b1] assms by simp
  also have "push_bit 8 (b1 * 256 + b2) OR b3 = (b1 * 256 + b2) * 256 + b3"
    using or_push [of b3 8 "b1 * 256 + b2"] assms by simp
  also have "push_bit 8 ((b1 * 256 + b2) * 256 + b3) OR b4 =
      ((b1 * 256 + b2) * 256 + b3) * 256 + b4"
    using or_push [of b4 8 "(b1 * 256 + b2) * 256 + b3"] assms by simp
  also have "((b1 * 256 + b2) * 256 + b3) * 256 + b4 =
      b1 * 16777216 + b2 * 65536 + b3 * 256 + b4"
    by (simp add: algebra_simps)
  finally show ?thesis
    by (simp add: sint_ToInt32)
qed

lemma js_sar_4:
  assumes "0 \<le> x" "x < 256"
  shows "js_sar x 4 = x div 16"
proof -
  have "sint (ToInt32 x) = x"
    using assms by (simp add: sint_ToInt32)
  then show ?thesis
    by (simp add: js_sar_def sint_signed_drop_bit_eq drop_bit_eq_div)
qed

lemma js_and_15:
  assumes "0 \<le> x" "x < 256"
  shows "js_and x 15 = x mod 16"
proof -
  have "x AND 15 = x mod 16"
    using take_bit_eq_mask [of 4 x] by (simp add: take_bit_eq_mod mask_eq_exp_minus_1)
  moreover have "0 \<le> x mod 16" "x mod 16 < 16"
    by simp_all
  ultimately show ?thesis
    by (simp add: js_and_def ToInt32_and sint_ToInt32)
qed

lemma uint_byte: "0 \<le> uint (w :: 8 word) \<and> uint w < 256"
  using uint_bounded [of w] by simp

subsection \<open>The three-byte and the five-byte integer\<close>

text \<open>
  C6. When the leading byte under the cursor is 28 and the bytes \<open>b1\<close>, \<open>b2\<close> follow,
  the scanner's loop goes on with the operand \<^verbatim>\<open>b1 << 8 | b2\<close> appended and the cursor
  three bytes further, and that operand is \<open>b1 * 256 + b2\<close>, between 0 and 65535: the
  16 bits are not read as a signed value. The read of the leading byte returns 28, and
  the operand branch entered after it returns \<open>Integer (b1 * 256 + b2)\<close> with the cursor
  after \<open>b2\<close>. Bytes 1, 2 give 258 and bytes 255, 255 give 65535, as the scans of
  28 1 2 5 and 28 255 255 5 return.
\<close>

theorem three_byte_operand_unsigned:
  assumes "length operands \<le> 48" and "offset binEd + 2 < length (dataView binEd)"
    and "dataView binEd ! offset binEd = 28"
    and "b1 = uint (dataView binEd ! (offset binEd + 1))"
    and "b2 = uint (dataView binEd ! (offset binEd + 2))"
  shows "readOperandsOperator_while operands binEd =
           readOperandsOperator_while (operands @ [Integer (js_or (js_shl b1 8) b2)])
             (binEd\<lparr>offset := offset binEd + 3\<rparr>) \<and>
         js_or (js_shl b1 8) b2 = b1 * 256 + b2 \<and>
         0 \<le> js_or (js_shl b1 8) b2 \<and> js_or (js_shl b1 8) b2 \<le> 65535 \<and>
         getUint8 binEd = Inr (28, binEd\<lparr>offset := offset binEd + 1\<rparr>) \<and>
         readOperand 28 (binEd\<lparr>offset := offset binEd + 1\<rparr>) =
           Inr (Some (Integer (b1 * 256 + b2)), binEd\<lparr>offset := offset binEd + 3\<rparr>)"
proof -
  have bytes: "0 \<le> b1" "b1 < 256" "0 \<le> b2" "b2 < 256"
    using assms(4,5) uint_byte by simp_all
  then have val: "js_or (js_shl b1 8) b2 = b1 * 256 + b2"
    by (rule js_or_shl_16)
  have lead: "getUint8 binEd = Inr (28, binEd\<lparr>offset := offset binEd + 1\<rparr>)"
    using assms(2,3) by (simp add: getUint8_def)
  have operand: "readOperand 28 (binEd\<lparr>offset := offset binEd + 1\<rparr>) =
      Inr (Some (Integer (js_or (js_shl b1 8) b2)), binEd\<lparr>offset := offset binEd + 3\<rparr>)"
  proof -
    have "offset binEd + 3 = Suc (Suc (Suc (offset binEd)))"
      by simp
    with assms(2,4,5) show ?thesis
      by (simp add: readOperand_def getUint8_def)
  qed
  have "readOperandsOperator_while operands binEd =
      readOperandsOperator_while (operands @ [Integer (js_or (js_shl b1 8) b2)])
        (binEd\<lparr>offset := offset binEd + 3\<rparr>)"
    using scan_not_reserved [OF assms(1) lead] operand by simp
  with val bytes lead operand show ?thesis
    by simp
qed




theorem three_byte_operand_unsigned_witness:
  "readOperandsOperator' \<lparr>dataView = [28, 0x01, 0x02, 5], offset = 0\<rparr> =
     Inr (\<lparr>key = ''5'', val = [Integer 258]\<rparr>,
          \<lparr>dataView = [28, 0x01, 0x02, 5], offset = 4\<rparr>) \<and>
   readOperand 28 \<lparr>dataView = [28, 0x01, 0x02, 5], offset = 1\<rparr> =
     Inr (Some (Integer 258), \<lparr>dataView = [28, 0x01, 0x02, 5], offset = 3\<rparr>) \<and>
   readOperandsOperator' \<lparr>dataView = [28, 0xff, 0xff, 5], offset = 0\<rparr> =
     Inr (\<lparr>key = ''5'', val = [Integer 65535]\<rparr>,
          \<lparr>dataView = [28, 0xff, 0xff, 5], offset = 4\<rparr>) \<and>
   readOperand 28 \<lparr>dataView = [28, 0xff, 0xff, 5], offset = 1\<rparr> =
     Inr (Some (Integer 65535), \<lparr>dataView = [28, 0xff, 0xff, 5], offset = 3\<rparr>)"
proof -
  let ?a = "\<lparr>dataView = [28, 0x01, 0x02, 5], offset = 0\<rparr>"
  let ?b = "\<lparr>dataView = [28, 0xff, 0xff, 5], offset = 0\<rparr>"
  have none: "length ([] :: operand list) \<le> 48"
    by simp
  have a: "offset ?a + 2 < length (dataView ?a)" "dataView ?a ! offset ?a = 28"
    "1 = uint (dataView ?a ! (offset ?a + 1))" "2 = uint (dataView ?a ! (offset ?a + 2))"
    by simp_all
  have b: "offset ?b + 2 < length (dataView ?b)" "dataView ?b ! offset ?b = 28"
    "255 = uint (dataView ?b ! (offset ?b + 1))" "255 = uint (dataView ?b ! (offset ?b + 2))"
    by simp_all
  have rest_a: "readOperandsOperator_while [Integer 258]
      \<lparr>dataView = [28, 0x01, 0x02, 5], offset = 3\<rparr> =
      Inr (\<lparr>key = ''5'', val = [Integer 258]\<rparr>,
           \<lparr>dataView = [28, 0x01, 0x02, 5], offset = 4\<rparr>)"
    by code_simp
  have rest_b: "readOperandsOperator_while [Integer 65535]
      \<lparr>dataView = [28, 0xff, 0xff, 5], offset = 3\<rparr> =
      Inr (\<lparr>key = ''5'', val = [Integer 65535]\<rparr>,
           \<lparr>dataView = [28, 0xff, 0xff, 5], offset = 4\<rparr>)"
    by code_simp
  from three_byte_operand_unsigned [OF none a] three_byte_operand_unsigned [OF none b]
    rest_a rest_b
  show ?thesis by (simp add: readOperandsOperator'_def)
qed

text \<open>
  C9. When the leading byte under the cursor is 29 and the bytes \<open>b1\<close> to \<open>b4\<close> follow,
  the scanner's loop goes on, the cursor five bytes further, with the operand
  \<^verbatim>\<open>b1 << 24 | b2 << 16 | b3 << 8 | b4\<close> appended, which is the signed 32-bit big-endian
  interpretation of the four bytes: it lies between \<open>- 2 ^ 31\<close> and \<open>2 ^ 31 - 1\<close>, and
  it is negative when \<open>b1\<close> is 128 or more and non-negative otherwise. The read of the
  leading byte returns 29, and the operand branch entered after it returns that integer
  with the cursor after \<open>b4\<close>.
\<close>

theorem five_byte_operand_signed:
  assumes "length operands \<le> 48" and "offset binEd + 4 < length (dataView binEd)"
    and "dataView binEd ! offset binEd = 29"
    and "b1 = uint (dataView binEd ! (offset binEd + 1))"
    and "b2 = uint (dataView binEd ! (offset binEd + 2))"
    and "b3 = uint (dataView binEd ! (offset binEd + 3))"
    and "b4 = uint (dataView binEd ! (offset binEd + 4))"
  shows "readOperandsOperator_while operands binEd =
           readOperandsOperator_while (operands @ [Integer (int32_big_endian b1 b2 b3 b4)])
             (binEd\<lparr>offset := offset binEd + 5\<rparr>) \<and>
         js_or (js_or (js_or (js_shl b1 24) (js_shl b2 16)) (js_shl b3 8)) b4 =
           int32_big_endian b1 b2 b3 b4 \<and>
         - (2 ^ 31) \<le> int32_big_endian b1 b2 b3 b4 \<and>
         int32_big_endian b1 b2 b3 b4 \<le> 2 ^ 31 - 1 \<and>
         (if 128 \<le> b1 then int32_big_endian b1 b2 b3 b4 < 0
          else 0 \<le> int32_big_endian b1 b2 b3 b4) \<and>
         getUint8 binEd = Inr (29, binEd\<lparr>offset := offset binEd + 1\<rparr>) \<and>
         readOperand 29 (binEd\<lparr>offset := offset binEd + 1\<rparr>) =
           Inr (Some (Integer (int32_big_endian b1 b2 b3 b4)),
                binEd\<lparr>offset := offset binEd + 5\<rparr>)"
proof -
  let ?v = "js_or (js_or (js_or (js_shl b1 24) (js_shl b2 16)) (js_shl b3 8)) b4"
  let ?u = "b1 * 16777216 + b2 * 65536 + b3 * 256 + b4"
  have bytes: "0 \<le> b1" "b1 < 256" "0 \<le> b2" "b2 < 256" "0 \<le> b3" "b3 < 256"
    "0 \<le> b4" "b4 < 256"
    using assms(4-7) uint_byte by simp_all
  then have "?v = (?u + 2 ^ 31) mod 2 ^ 32 - 2 ^ 31"
    by (rule js_or_shl_32)
  moreover have range: "0 \<le> ?u" "?u < 2 ^ 32"
    using bytes by simp_all
  have "(?u + 2 ^ 31) mod 2 ^ 32 - 2 ^ 31 = (if ?u < 2 ^ 31 then ?u else ?u - 2 ^ 32)"
  proof (cases "?u < 2 ^ 31")
    case True
    with range have "(?u + 2 ^ 31) mod 2 ^ 32 = ?u + 2 ^ 31"
      by (intro mod_pos_pos_trivial) simp_all
    with True show ?thesis by simp
  next
    case False
    with range have "(?u + 2 ^ 31 - 2 ^ 32) mod 2 ^ 32 = ?u + 2 ^ 31 - 2 ^ 32"
      by (intro mod_pos_pos_trivial) simp_all
    moreover have "(?u + 2 ^ 31 - 2 ^ 32) mod 2 ^ 32 = (?u + 2 ^ 31) mod 2 ^ 32"
      using mod_diff_right_eq [of "?u + 2 ^ 31" "2 ^ 32" "2 ^ 32"] by simp
    ultimately show ?thesis using False by simp
  qed
  ultimately have val: "?v = int32_big_endian b1 b2 b3 b4"
    by (simp add: int32_big_endian_def)
  have sign: "if 128 \<le> b1 then int32_big_endian b1 b2 b3 b4 < 0
      else 0 \<le> int32_big_endian b1 b2 b3 b4"
    using bytes by (simp add: int32_big_endian_def Let_def)
  have bounds: "- (2 ^ 31) \<le> int32_big_endian b1 b2 b3 b4"
    "int32_big_endian b1 b2 b3 b4 \<le> 2 ^ 31 - 1"
    using bytes by (simp_all add: int32_big_endian_def Let_def)
  have lead: "getUint8 binEd = Inr (29, binEd\<lparr>offset := offset binEd + 1\<rparr>)"
    using assms(2,3) by (simp add: getUint8_def)
  have operand: "readOperand 29 (binEd\<lparr>offset := offset binEd + 1\<rparr>) =
      Inr (Some (Integer ?v), binEd\<lparr>offset := offset binEd + 5\<rparr>)"
  proof -
    have "offset binEd + 3 = Suc (Suc (Suc (offset binEd)))"
      "offset binEd + 4 = Suc (Suc (Suc (Suc (offset binEd))))"
      "offset binEd + 5 = Suc (Suc (Suc (Suc (Suc (offset binEd)))))"
      by simp_all
    with assms(2,4-7) show ?thesis
      by (simp add: readOperand_def getUint8_def)
  qed
  have "readOperandsOperator_while operands binEd =
      readOperandsOperator_while (operands @ [Integer ?v]) (binEd\<lparr>offset := offset binEd + 5\<rparr>)"
    using scan_not_reserved [OF assms(1) lead] operand by simp
  with val sign bounds lead operand show ?thesis
    by simp
qed

theorem five_byte_operand_signed_witness:
  "readOperandsOperator' \<lparr>dataView = [29, 0x80, 0, 0, 1, 5], offset = 0\<rparr> =
     Inr (\<lparr>key = ''5'', val = [Integer (- 2147483647)]\<rparr>,
          \<lparr>dataView = [29, 0x80, 0, 0, 1, 5], offset = 6\<rparr>) \<and>
   readOperand 29 \<lparr>dataView = [29, 0x80, 0, 0, 1, 5], offset = 1\<rparr> =
     Inr (Some (Integer (- 2147483647)), \<lparr>dataView = [29, 0x80, 0, 0, 1, 5], offset = 5\<rparr>) \<and>
   readOperandsOperator' \<lparr>dataView = [29, 0, 0, 0, 0x10, 5], offset = 0\<rparr> =
     Inr (\<lparr>key = ''5'', val = [Integer 16]\<rparr>,
          \<lparr>dataView = [29, 0, 0, 0, 0x10, 5], offset = 6\<rparr>) \<and>
   readOperand 29 \<lparr>dataView = [29, 0, 0, 0, 0x10, 5], offset = 1\<rparr> =
     Inr (Some (Integer 16), \<lparr>dataView = [29, 0, 0, 0, 0x10, 5], offset = 5\<rparr>)"
proof -
  let ?a = "\<lparr>dataView = [29, 0x80, 0, 0, 1, 5], offset = 0\<rparr>"
  let ?b = "\<lparr>dataView = [29, 0, 0, 0, 0x10, 5], offset = 0\<rparr>"
  have none: "length ([] :: operand list) \<le> 48"
    by simp
  have a: "offset ?a + 4 < length (dataView ?a)" "dataView ?a ! offset ?a = 29"
    "128 = uint (dataView ?a ! (offset ?a + 1))" "0 = uint (dataView ?a ! (offset ?a + 2))"
    "0 = uint (dataView ?a ! (offset ?a + 3))" "1 = uint (dataView ?a ! (offset ?a + 4))"
    by simp_all
  have b: "offset ?b + 4 < length (dataView ?b)" "dataView ?b ! offset ?b = 29"
    "0 = uint (dataView ?b ! (offset ?b + 1))" "0 = uint (dataView ?b ! (offset ?b + 2))"
    "0 = uint (dataView ?b ! (offset ?b + 3))" "16 = uint (dataView ?b ! (offset ?b + 4))"
    by simp_all
  have rest_a: "readOperandsOperator_while [Integer (- 2147483647)]
      \<lparr>dataView = [29, 0x80, 0, 0, 1, 5], offset = 5\<rparr> =
      Inr (\<lparr>key = ''5'', val = [Integer (- 2147483647)]\<rparr>,
           \<lparr>dataView = [29, 0x80, 0, 0, 1, 5], offset = 6\<rparr>)"
    by code_simp
  have rest_b: "readOperandsOperator_while [Integer 16]
      \<lparr>dataView = [29, 0, 0, 0, 0x10, 5], offset = 5\<rparr> =
      Inr (\<lparr>key = ''5'', val = [Integer 16]\<rparr>,
           \<lparr>dataView = [29, 0, 0, 0, 0x10, 5], offset = 6\<rparr>)"
    by code_simp
  from five_byte_operand_signed [OF none a] five_byte_operand_signed [OF none b]
    rest_a rest_b
  show ?thesis by (simp add: readOperandsOperator'_def int32_big_endian_def)
qed

subsection \<open>The terminator nibble of a real number\<close>

lemma parseNibbles_step:
  assumes "operandsCnt \<le> 48" and "offset binEd < length (dataView binEd)"
    and "aByte = uint (dataView binEd ! offset binEd)"
  shows "parseNibbles_while operandsCnt operand binEd =
    (case parseNibbles_for [aByte div 16, aByte mod 16] operand of
       Return s \<Rightarrow> Inr (s, binEd\<lparr>offset := offset binEd + 1\<rparr>)
     | Continue operand1 \<Rightarrow>
         parseNibbles_while (operandsCnt + 1) operand1 (binEd\<lparr>offset := offset binEd + 1\<rparr>))"
proof -
  have "0 \<le> aByte" "aByte < 256"
    using assms(3) uint_byte by simp_all
  then have "js_sar aByte 4 = aByte div 16" "js_and aByte 0xf = aByte mod 16"
    by (simp_all add: js_sar_4 js_and_15)
  with assms show ?thesis
    by (simp add: parseNibbles_while.simps [of operandsCnt operand binEd] getUint8_def)
qed

text \<open>
  C4. In \<^verbatim>\<open>parseNibbles_\<close>, when the high nibble of the byte under the cursor is \<^verbatim>\<open>0xf\<close>,
  the function returns the string accumulated so far, the cursor just after that byte,
  whatever the low nibble is: the low nibble is never examined. When the low nibble is
  \<^verbatim>\<open>0xf\<close> and the high nibble is not, it returns the string after the high nibble
  has been handled. The bytes \<^verbatim>\<open>0x1a 0x2f\<close> decode to the string 1.2.
\<close>

theorem nibble_terminator:
  assumes "operandsCnt \<le> 48" and "offset binEd < length (dataView binEd)"
    and "aByte = uint (dataView binEd ! offset binEd)"
  shows "(aByte div 16 = 0xf \<longrightarrow>
            parseNibbles_while operandsCnt operand binEd =
              Inr (operand, binEd\<lparr>offset := offset binEd + 1\<rparr>)) \<and>
         (aByte div 16 \<noteq> 0xf \<and> aByte mod 16 = 0xf \<longrightarrow>
            parseNibbles_while operandsCnt operand binEd =
              (case parseNibbles_for [aByte div 16] operand of
                 Return s \<Rightarrow> Inr (s, binEd\<lparr>offset := offset binEd + 1\<rparr>)
               | Continue s \<Rightarrow> Inr (s, binEd\<lparr>offset := offset binEd + 1\<rparr>))) \<and>
         parseNibbles' \<lparr>dataView = [0x1a, 0x2f], offset = 0\<rparr> =
           Inr (''1.2'', \<lparr>dataView = [0x1a, 0x2f], offset = 2\<rparr>)"
proof (intro conjI impI)
  note step = parseNibbles_step [OF assms, of operand]
  {
    assume "aByte div 16 = 0xf"
    with step show "parseNibbles_while operandsCnt operand binEd =
        Inr (operand, binEd\<lparr>offset := offset binEd + 1\<rparr>)"
      by simp
  next
    assume "aByte div 16 \<noteq> 0xf \<and> aByte mod 16 = 0xf"
    with step show "parseNibbles_while operandsCnt operand binEd =
        (case parseNibbles_for [aByte div 16] operand of
           Return s \<Rightarrow> Inr (s, binEd\<lparr>offset := offset binEd + 1\<rparr>)
         | Continue s \<Rightarrow> Inr (s, binEd\<lparr>offset := offset binEd + 1\<rparr>))"
      by simp
  }
  show "parseNibbles' \<lparr>dataView = [0x1a, 0x2f], offset = 0\<rparr> =
      Inr (''1.2'', \<lparr>dataView = [0x1a, 0x2f], offset = 2\<rparr>)"
    by code_simp
qed

theorem nibble_terminator_witness:
  "parseNibbles_while 0 ''7'' \<lparr>dataView = [0xf5, 0x33], offset = 0\<rparr> =
     Inr (''7'', \<lparr>dataView = [0xf5, 0x33], offset = 1\<rparr>) \<and>
   parseNibbles_while 1 ''1.'' \<lparr>dataView = [0x1a, 0x2f], offset = 1\<rparr> =
     Inr (''1.2'', \<lparr>dataView = [0x1a, 0x2f], offset = 2\<rparr>)"
proof -
  let ?a = "\<lparr>dataView = [0xf5, 0x33], offset = 0\<rparr>"
  let ?b = "\<lparr>dataView = [0x1a, 0x2f], offset = 1\<rparr>"
  have a: "(0 :: nat) \<le> 48" "offset ?a < length (dataView ?a)"
    "245 = uint (dataView ?a ! offset ?a)"
    by simp_all
  have b: "(1 :: nat) \<le> 48" "offset ?b < length (dataView ?b)"
    "47 = uint (dataView ?b ! offset ?b)"
    by simp_all
  from nibble_terminator [OF a, of "''7''"] nibble_terminator [OF b, of "''1.''"]
  show ?thesis by (simp add: toString_def)
qed

subsection \<open>The map of operator names\<close>

lemma init_while_ignores_dictOperators:
  "map_sum id (\<lambda>(d, log). (name' d, keys' d, dict' d)) (init_while goog_DEBUG this binEd log1) =
   map_sum id (\<lambda>(d, log). (name' d, keys' d, dict' d))
     (init_while goog_DEBUG (this\<lparr>dictOperators' := operators\<rparr>) binEd log2)"
proof (induction goog_DEBUG this binEd log1 arbitrary: log2 rule: init_while.induct)
  case (1 goog_DEBUG this binEd log)
  let ?that = "this\<lparr>dictOperators' := operators\<rparr>"
  note unfold = init_while.simps [of goog_DEBUG this binEd log]
    init_while.simps [of goog_DEBUG ?that binEd log2]
  show ?case
  proof (cases "offset binEd < length (dataView' this)")
    case False
    then show ?thesis by (simp add: unfold)
  next
    case inside: True
    show ?thesis
    proof (cases "readOperandsOperator' binEd")
      case (Inl e)
      with inside show ?thesis by (simp add: unfold)
    next
      case (Inr scanned)
      obtain keyValuePair binEd1 where scanned: "scanned = (keyValuePair, binEd1)"
        by (cases scanned)
      show ?thesis
      proof (cases "keys' this")
        case None
        with inside Inr scanned show ?thesis by (simp add: unfold)
      next
        case (Some ks)
        let ?next = "this\<lparr>keys' := Some (ks @ [key keyValuePair]),
          dict' := (dict' this)(key keyValuePair \<mapsto> val keyValuePair)\<rparr>"
        let ?log1 = "if goog_DEBUG then log @ [logLine this keyValuePair] else log"
        let ?log2 = "if goog_DEBUG then log2 @ [logLine ?that keyValuePair] else log2"
        have state: "?that\<lparr>keys' := Some (ks @ [key keyValuePair]),
            dict' := (dict' ?that)(key keyValuePair \<mapsto> val keyValuePair)\<rparr> =
            ?next\<lparr>dictOperators' := operators\<rparr>"
          by simp
        have left: "init_while goog_DEBUG this binEd log = init_while goog_DEBUG ?next binEd1 ?log1"
          using inside Inr scanned Some by (simp add: unfold(1))
        have "init_while goog_DEBUG ?that binEd log2 =
            init_while goog_DEBUG
              (?that\<lparr>keys' := Some (ks @ [key keyValuePair]),
                 dict' := (dict' ?that)(key keyValuePair \<mapsto> val keyValuePair)\<rparr>)
              binEd1 ?log2"
          using inside Inr scanned Some by (simp add: unfold(2))
        then have right: "init_while goog_DEBUG ?that binEd log2 =
            init_while goog_DEBUG (?next\<lparr>dictOperators' := operators\<rparr>) binEd1 ?log2"
          by (simp only: state)
        show ?thesis
          unfolding left right
          by (rule "1.IH" [OF inside Inr scanned [symmetric] Some])
      qed
    qed
  qed
qed

lemma get_depends_on_name_and_dict:
  "name' d1 = name' d2 \<Longrightarrow> dict' d1 = dict' d2 \<Longrightarrow> get d1 = get d2"
  by (rule ext) (simp add: get_def)

text \<open>
  C8. \<^verbatim>\<open>loadDict\<close> with a map of operator names and \<^verbatim>\<open>loadDict\<close> without one, on the
  same name, buffer, offset and length and in the same build, fail with the same error
  or both return a Dict, and the two Dicts have the same name, the same key list, the
  same mapping from operators to operands and the same results of \<^verbatim>\<open>get\<close>. Only the
  logged lines, which the comparison leaves out, can differ, as the example after the
  theorem shows.
\<close>

theorem operator_names_do_not_alter_decoding:
  "map_sum id (\<lambda>(d, log). (getName d, getKeys d, dict' d, get d))
     (loadDict goog_DEBUG name buffer offs len (Some operators)) =
   map_sum id (\<lambda>(d, log). (getName d, getKeys d, dict' d, get d))
     (loadDict goog_DEBUG name buffer offs len None)"
proof (cases "offs + len \<le> length buffer")
  case False
  then show ?thesis by (simp add: loadDict_def)
next
  case True
  let ?view = "take len (drop offs buffer)"
  let ?dict = "CffDict goog_DEBUG name ?view"
  let ?start = "\<lparr>dataView = ?view, offset = 0\<rparr>"
  let ?core = "\<lambda>(d :: CffDict, log :: string list). (name' d, keys' d, dict' d)"
  let ?obs = "\<lambda>(d, log :: string list). (getName d, getKeys d, dict' d, get d)"
  have same: "map_sum id ?core (init_while goog_DEBUG (?dict\<lparr>dictOperators' := Some operators\<rparr>) ?start []) =
      map_sum id ?core (init_while goog_DEBUG ?dict ?start [])"
    using init_while_ignores_dictOperators
      [of goog_DEBUG ?dict ?start "[]" "Some operators" "[]"] by simp
  have obs: "map_sum id ?obs r1 = map_sum id ?obs r2"
    if "map_sum id ?core r1 = map_sum id ?core r2" for r1 r2
  proof (cases r1)
    case (Inl e)
    with that show ?thesis by (cases r2) simp_all
  next
    case r1: (Inr p1)
    with that obtain p2 where r2: "r2 = Inr p2" by (cases r2) simp_all
    obtain d1 l1 d2 l2 where p: "p1 = (d1, l1)" "p2 = (d2, l2)"
      by (cases p1, cases p2)
    with that r1 r2 have "name' d1 = name' d2" "keys' d1 = keys' d2" "dict' d1 = dict' d2"
      by simp_all
    with r1 r2 p get_depends_on_name_and_dict [of d1 d2] show ?thesis
      by (simp add: getName_def getKeys_def)
  qed
  have none: "?dict\<lparr>dictOperators' := None\<rparr> = ?dict" "dataView' ?dict = ?view"
    by (simp_all add: CffDict_def)
  show ?thesis
  proof (cases goog_DEBUG)
    case False
    then show ?thesis by (simp add: loadDict_def)
  next
    case True
    with \<open>offs + len \<le> length buffer\<close> obs [OF same] none show ?thesis
      by (simp add: loadDict_def init'_def setOperators_def Let_def)
  qed
qed

lemma operator_names_alter_log:
  "map_sum id snd (loadDict True ''Top'' [0x8B, 0] 0 2 (Some [''0'' \<mapsto> ''version''])) =
     Inr [''  0 version''] \<and>
   map_sum id snd (loadDict True ''Top'' [0x8B, 0] 0 2 None) = Inr [''  0 0'']"
  by (simp add: loadDict_def init'_def setOperators_def CffDict_def init_while.simps
      readOperandsOperator'_def readOperandsOperator_while.simps getUint8_def readOperand_def
      readOperator_def toString_def logLine_def js_get_def)

subsection \<open>Lookup\<close>

text \<open>
  C7. The claim is that \<^verbatim>\<open>get\<close> fails exactly on the keys absent from the decoded
  mapping. The source tests \<^verbatim>\<open>key in this.dict_\<close>, which also holds of every name
  inherited from \<^verbatim>\<open>Object.prototype\<close>: on the Dict decoded from an empty region, whose
  mapping has no key at all, \<^verbatim>\<open>get('toString')\<close> does not fail and returns the inherited
  member, which is no operand list. For every other key \<^verbatim>\<open>get\<close> fails exactly when
  the key is absent, and returns the stored operands otherwise (\<open>get_fails_iff_absent\<close>).
\<close>

theorem get_returns_inherited_member:
  "(case loadDict True ''Top'' [] 0 0 None of
      Inl e \<Rightarrow> False
    | Inr (d, log) \<Rightarrow>
        dict' d ''toString'' = None \<and> get d ''toString'' = Inr (Inherited ''toString''))"
  by (simp add: loadDict_def init'_def setOperators_def CffDict_def init_while.simps
      get_def js_in_def js_get_def Object_prototype_def)

lemma get_fails_iff_absent:
  assumes "k \<notin> set Object_prototype"
  shows "(get d k = Inl (InvalidKeyLookup (''CFF '' @ name' d @ '' DICT: invalid key: '' @ k)))
      = (dict' d k = None)"
    and "dict' d k = Some v \<Longrightarrow> get d k = Inr (Own v)"
  using assms by (auto simp: get_def js_in_def js_get_def split: option.splits)

subsection \<open>Repeated operators\<close>

lemma produces_deterministic:
  "produces n binEd kvs \<Longrightarrow> produces n binEd kvs' \<Longrightarrow> kvs = kvs'"
proof (induction arbitrary: kvs' rule: produces.induct)
  case (produces_end binEd n)
  from produces_end.prems produces_end.hyps show ?case
    by (cases rule: produces.cases) simp_all
next
  case (produces_scan binEd n keyValuePair binEd1 kvs)
  from produces_scan.prems produces_scan.hyps(1,2) obtain rest
    where "kvs' = keyValuePair # rest" "produces n binEd1 rest"
    by (cases rule: produces.cases) auto
  with produces_scan.IH show ?case by simp
qed

lemma map_of_last_occurrence:
  "map_of (rev (map (\<lambda>p. (key p, val p)) kvs)) k =
     (if k \<in> set (map key kvs) then Some (val (last (filter (\<lambda>p. key p = k) kvs))) else None)"
  by (induction kvs rule: rev_induct) auto

lemma map_add_first_pair:
  "m ++ map_of (rev (map (\<lambda>p. (key p, val p)) (kv # kvs))) =
   m(key kv \<mapsto> val kv) ++ map_of (rev (map (\<lambda>p. (key p, val p)) kvs))"
proof -
  have "m ++ map_of (rev (map (\<lambda>p. (key p, val p)) (kv # kvs))) =
      m ++ (map_of [(key kv, val kv)] ++ map_of (rev (map (\<lambda>p. (key p, val p)) kvs)))"
    by (simp only: list.map rev.simps map_of_append)
  also have "\<dots> = (m ++ map_of [(key kv, val kv)]) ++
      map_of (rev (map (\<lambda>p. (key p, val p)) kvs))"
    by (simp only: map_add_assoc)
  also have "m ++ map_of [(key kv, val kv)] = m(key kv \<mapsto> val kv)"
    by simp
  finally show ?thesis .
qed

lemma init_while_produces:
  "init_while goog_DEBUG this binEd log = Inr (d, log') \<Longrightarrow>
   \<exists>kvs. produces (length (dataView' this)) binEd kvs \<and>
     keys' d = map_option (\<lambda>ks. ks @ map key kvs) (keys' this) \<and>
     (keys' this = None \<longrightarrow> kvs = []) \<and>
     dict' d = dict' this ++ map_of (rev (map (\<lambda>p. (key p, val p)) kvs)) \<and>
     name' d = name' this"
proof (induction goog_DEBUG this binEd log rule: init_while.induct)
  case (1 goog_DEBUG this binEd log)
  note unfold = init_while.simps [of goog_DEBUG this binEd log]
  show ?case
  proof (cases "offset binEd < length (dataView' this)")
    case False
    with "1.prems" have "d = this" by (simp add: unfold)
    moreover from False have "produces (length (dataView' this)) binEd []"
      by (rule produces_end)
    ultimately show ?thesis
      by (intro exI [of _ "[]"]) (simp add: option.map_ident)
  next
    case inside: True
    with "1.prems" obtain keyValuePair binEd1
      where scan: "readOperandsOperator' binEd = Inr (keyValuePair, binEd1)"
      by (auto simp: unfold split: sum.splits)
    with inside "1.prems" obtain ks where ks: "keys' this = Some ks"
      by (auto simp: unfold split: option.splits)
    let ?next = "this\<lparr>keys' := Some (ks @ [key keyValuePair]),
      dict' := (dict' this)(key keyValuePair \<mapsto> val keyValuePair)\<rparr>"
    let ?log = "if goog_DEBUG then log @ [logLine this keyValuePair] else log"
    from inside scan ks "1.prems"
    have "init_while goog_DEBUG ?next binEd1 ?log = Inr (d, log')"
      by (simp add: unfold)
    from "1.IH" [OF inside scan refl ks this]
    obtain kvs where ih: "produces (length (dataView' ?next)) binEd1 kvs \<and>
        keys' d = map_option (\<lambda>ks. ks @ map key kvs) (keys' ?next) \<and>
        (keys' ?next = None \<longrightarrow> kvs = []) \<and>
        dict' d = dict' ?next ++ map_of (rev (map (\<lambda>p. (key p, val p)) kvs)) \<and>
        name' d = name' ?next"
      ..
    then have rest: "produces (length (dataView' this)) binEd1 kvs"
      and keys: "keys' d = Some ((ks @ [key keyValuePair]) @ map key kvs)"
      and dict: "dict' d = (dict' this)(key keyValuePair \<mapsto> val keyValuePair) ++
          map_of (rev (map (\<lambda>p. (key p, val p)) kvs))"
      and name: "name' d = name' this"
      by simp_all
    from inside scan rest
    have "produces (length (dataView' this)) binEd (keyValuePair # kvs)"
      by (rule produces_scan)
    moreover have "dict' d = dict' this ++
        map_of (rev (map (\<lambda>p. (key p, val p)) (keyValuePair # kvs)))"
      using dict by (simp only: map_add_first_pair)
    ultimately show ?thesis
      using keys ks name by (intro exI [of _ "keyValuePair # kvs"]) simp
  qed
qed


text \<open>
  C5. For every Dict that \<^verbatim>\<open>loadDict\<close> returns, the decode has produced a sequence of
  key/value pairs, and with \<open>kvs\<close> that sequence: \<^verbatim>\<open>getKeys\<close> is the list of the keys of
  \<open>kvs\<close>, one entry per occurrence and in the order of production (the key list exists
  under \<^verbatim>\<open>goog.DEBUG\<close> only, and without it no Dict is returned unless \<open>kvs\<close> is empty);
  \<^verbatim>\<open>get\<close> on a produced token returns the operand list of the last pair of \<open>kvs\<close> with
  that token; and the tokens of the operand mapping are exactly the tokens of the key
  list.
\<close>

theorem last_occurrence_wins_keys_keep_all:
  assumes "loadDict goog_DEBUG name buffer offs len opt_dictOperators = Inr (d, log)"
  shows "(\<exists>kvs. produces len \<lparr>dataView = take len (drop offs buffer), offset = 0\<rparr> kvs) \<and>
         (\<forall>kvs. produces len \<lparr>dataView = take len (drop offs buffer), offset = 0\<rparr> kvs \<longrightarrow>
            getKeys d = (if goog_DEBUG then Some (map key kvs) else None) \<and>
            (goog_DEBUG \<or> kvs = []) \<and>
            (\<forall>k \<in> set (map key kvs).
               get d k = Inr (Own (val (last (filter (\<lambda>p. key p = k) kvs))))) \<and>
            dom (dict' d) = set (map key kvs))"
proof -
  let ?view = "take len (drop offs buffer)"
  let ?start = "\<lparr>dataView = ?view, offset = 0\<rparr>"
  let ?dict = "if goog_DEBUG then setOperators (CffDict goog_DEBUG name ?view) opt_dictOperators
    else CffDict goog_DEBUG name ?view"
  from assms have inside: "offs + len \<le> length buffer"
    by (auto simp: loadDict_def split: if_splits)
  then have len: "length ?view = len"
    by simp
  from assms inside have run: "init_while goog_DEBUG ?dict ?start [] = Inr (d, log)"
    by (simp add: loadDict_def init'_def Let_def CffDict_def setOperators_def split: if_splits)
  have start: "dataView' ?dict = ?view" "keys' ?dict = (if goog_DEBUG then Some [] else None)"
    "dict' ?dict = Map.empty"
    by (simp_all add: CffDict_def setOperators_def)
  from init_while_produces [OF run] start len
  obtain kvs where kvs: "produces len ?start kvs"
    and keys: "keys' d = (if goog_DEBUG then Some (map key kvs) else None)"
    and debug: "goog_DEBUG \<or> kvs = []"
    and dict: "dict' d = map_of (rev (map (\<lambda>p. (key p, val p)) kvs))"
    by (auto split: if_splits)
  have lookup: "get d k = Inr (Own (val (last (filter (\<lambda>p. key p = k) kvs))))"
    if "k \<in> set (map key kvs)" for k
    using that dict map_of_last_occurrence [of kvs k]
    by (simp add: get_def js_in_def js_get_def)
  have dom: "dom (dict' d) = set (map key kvs)"
    using dict map_of_last_occurrence [of kvs] by (auto simp: dom_def)
  have "getKeys d = (if goog_DEBUG then Some (map key kvs') else None) \<and>
      (goog_DEBUG \<or> kvs' = []) \<and>
      (\<forall>k \<in> set (map key kvs').
         get d k = Inr (Own (val (last (filter (\<lambda>p. key p = k) kvs'))))) \<and>
      dom (dict' d) = set (map key kvs')"
    if "produces len ?start kvs'" for kvs'
  proof -
    from produces_deterministic [OF that kvs] have "kvs' = kvs" .
    with keys debug lookup dom show ?thesis
      by (simp add: getKeys_def)
  qed
  with kvs show ?thesis by blast
qed


theorem last_occurrence_wins_keys_keep_all_witness:
  "(case loadDict True ''Top'' [0x8C, 5, 0x8D, 0x8E, 5, 0x8B, 12, 7] 0 8 None of
      Inl e \<Rightarrow> False
    | Inr (d, log) \<Rightarrow>
        getKeys d = Some [''5'', ''5'', ''12 7''] \<and>
        get d ''5'' = Inr (Own [Integer 2, Integer 3]) \<and>
        get d ''12 7'' = Inr (Own [Integer 0]) \<and>
        dom (dict' d) = {''5'', ''12 7''})"
proof -
  let ?view = "[0x8C, 5, 0x8D, 0x8E, 5, 0x8B, 12, 7] :: 8 word list"
  let ?kvs = "[\<lparr>key = ''5'', val = [Integer 1]\<rparr>, \<lparr>key = ''5'', val = [Integer 2, Integer 3]\<rparr>,
    \<lparr>key = ''12 7'', val = [Integer 0]\<rparr>]"
  have view: "take 8 (drop 0 ?view) = ?view"
    by simp
  have s0: "readOperandsOperator' \<lparr>dataView = ?view, offset = 0\<rparr> =
      Inr (\<lparr>key = ''5'', val = [Integer 1]\<rparr>, \<lparr>dataView = ?view, offset = 2\<rparr>)"
    by code_simp
  have s2: "readOperandsOperator' \<lparr>dataView = ?view, offset = 2\<rparr> =
      Inr (\<lparr>key = ''5'', val = [Integer 2, Integer 3]\<rparr>, \<lparr>dataView = ?view, offset = 5\<rparr>)"
    by code_simp
  have s5: "readOperandsOperator' \<lparr>dataView = ?view, offset = 5\<rparr> =
      Inr (\<lparr>key = ''12 7'', val = [Integer 0]\<rparr>, \<lparr>dataView = ?view, offset = 8\<rparr>)"
    by code_simp
  have p8: "produces 8 \<lparr>dataView = ?view, offset = 8\<rparr> []"
    by (rule produces_end) simp
  have p5: "produces 8 \<lparr>dataView = ?view, offset = 5\<rparr> [\<lparr>key = ''12 7'', val = [Integer 0]\<rparr>]"
    by (rule produces_scan [OF _ s5 p8]) simp
  have p2: "produces 8 \<lparr>dataView = ?view, offset = 2\<rparr>
      [\<lparr>key = ''5'', val = [Integer 2, Integer 3]\<rparr>, \<lparr>key = ''12 7'', val = [Integer 0]\<rparr>]"
    by (rule produces_scan [OF _ s2 p5]) simp
  have "produces 8 \<lparr>dataView = ?view, offset = 0\<rparr> ?kvs"
    by (rule produces_scan [OF _ s0 p2]) simp
  then have kvs: "produces 8 \<lparr>dataView = take 8 (drop 0 ?view), offset = 0\<rparr> ?kvs"
    by (simp only: view)
  show ?thesis
  proof (cases "loadDict True ''Top'' ?view 0 8 None")
    case (Inl e)
    then show ?thesis
      by (simp add: loadDict_def init'_def setOperators_def CffDict_def init_while.simps s0 s2 s5 Let_def)
  next
    case (Inr result)
    obtain d log where result: "result = (d, log)"
      by (cases result)
    from last_occurrence_wins_keys_keep_all [OF Inr [unfolded result]] kvs
    have "getKeys d = (if True then Some (map key ?kvs) else None) \<and>
        (\<forall>k \<in> set (map key ?kvs).
           get d k = Inr (Own (val (last (filter (\<lambda>p. key p = k) ?kvs))))) \<and>
        dom (dict' d) = set (map key ?kvs)"
      by blast
    then show ?thesis
      by (simp add: Inr result)
  qed
qed

end
